theory Spec2Isabelle
  imports Main
begin

section \<open>The indexed FASTA reader of nucleus/io/indexed_fasta_reader.cc\<close>

text \<open>
  The development embeds \<^verbatim>\<open>ExtractContigsFromFai\<close>,
  \<^verbatim>\<open>IndexedFastaReader::FromFile\<close> with the constructor,
  \<^verbatim>\<open>IndexedFastaReader::GetBases\<close>, \<^verbatim>\<open>IndexedFastaReader::Iterate\<close>,
  \<^verbatim>\<open>IndexedFastaReader::Close\<close> and \<^verbatim>\<open>IndexedFastaReaderIterable::Next\<close>.

  Conventions.
  \<^item> A \<^verbatim>\<open>StatusOr<T>\<close> is a sum \<open>error + T\<close>, \<open>Inl\<close> carrying the error code.
  \<^item> \<^verbatim>\<open>CHECK\<close>, \<^verbatim>\<open>ValueOrDie()\<close> on an error and an uncaught
    \<^verbatim>\<open>std::out_of_range\<close> end the process; a computation that can do so returns an
    \<open>exec\<close>, whose value \<open>Crash\<close> is the ended process.
  \<^item> The htslib handle \<^verbatim>\<open>faidx_\<close> is an option: \<open>None\<close> is the null pointer.
    The htslib functions that take the handle are external collaborators and are
    fields of the handle; \<^verbatim>\<open>faidx_fetch_seq\<close> is the store.
  \<^item> \<^verbatim>\<open>GetBases\<close> is a \<^verbatim>\<open>const\<close> method that writes the two mutable cache
    members; the model returns the updated reader. It also returns the list of
    \<^verbatim>\<open>faidx_fetch_seq\<close> invocations it made, which is how a store call counter of a
    test observes it.
  \<^item> Positions are \<^verbatim>\<open>int64\<close> and are modelled as \<open>int\<close>. All arithmetic of
    \<^verbatim>\<open>GetBases\<close> happens after \<^verbatim>\<open>IsValidInterval\<close> has bounded the operands by a
    contig length, which \<^verbatim>\<open>ExtractContigsFromFai\<close> reads from the
    \<^verbatim>\<open>int\<close>-valued \<^verbatim>\<open>faidx_seq_len\<close>; the only sum,
    \<^verbatim>\<open>range.start() + cache_size_bases_\<close>, adds an \<^verbatim>\<open>int\<close> to such a position
    and stays far below \<open>2 ^ 63\<close>. For the same reason the positions handed to
    \<^verbatim>\<open>faidx_fetch_seq\<close> are handed over with their values.
\<close>

subsection \<open>Data\<close>

datatype error = NotFound | InvalidArgument | FailedPrecondition

datatype 'a exec = Crash | Done 'a

record Range =
  reference_name :: string
  start :: int
  end' :: int

record ContigInfo =
  name :: string
  description :: string
  n_bases :: int
  pos_in_fasta :: int

text \<open>
  The htslib index handle, as far as the reader uses it: the number of sequences, the
  name of the \<open>i\<close>-th sequence (a null pointer is \<open>None\<close>), the length of a sequence
  by name, and the fetch of an inclusive region, which gives the C string behind the
  returned pointer and the \<^verbatim>\<open>len\<close> output.
\<close>

record faidx_t =
  faidx_nseq :: int
  faidx_iseq :: "int \<Rightarrow> string option"
  faidx_seq_len :: "string \<Rightarrow> int"
  faidx_fetch_seq :: "string \<Rightarrow> int \<Rightarrow> int \<Rightarrow> string \<times> int"

type_synonym fetch_call = "string \<times> int \<times> int"

record IndexedFastaReader =
  fasta_path :: string
  faidx :: "faidx_t option"
  contigs :: "ContigInfo list"
  cache_size_bases :: int
  small_read_cache :: string
  cached_range :: "Range option"

record IndexedFastaReaderIterable =
  pos :: nat

subsection \<open>Helpers\<close>

text \<open>
  Modelled from the spec: \<^verbatim>\<open>MakeRange\<close> (utils, source not at hand). A \<open>Range\<close> is a
  reference name with a start, 0-based and inclusive, and an end, 0-based and exclusive.
\<close>

definition MakeRange :: "string \<Rightarrow> int \<Rightarrow> int \<Rightarrow> Range" where
  "MakeRange chr s e = \<lparr>reference_name = chr, start = s, end' = e\<rparr>"

text \<open>
  \<^verbatim>\<open>absl::AsciiStrToUpper\<close>: the letters \<^verbatim>\<open>a\<close> to \<^verbatim>\<open>z\<close> (codes 97 to 122) move
  to \<^verbatim>\<open>A\<close> to \<^verbatim>\<open>Z\<close>, every other byte stays.
\<close>

definition ascii_islower :: "char \<Rightarrow> bool" where
  "ascii_islower c = (97 \<le> (of_char c :: nat) \<and> (of_char c :: nat) \<le> 122)"

definition ascii_toupper :: "char \<Rightarrow> char" where
  "ascii_toupper c = (if ascii_islower c then char_of ((of_char c :: nat) - 32) else c)"

definition AsciiStrToUpper :: "string \<Rightarrow> string" where
  "AsciiStrToUpper s = map ascii_toupper s"

text \<open>
  \<^verbatim>\<open>std::string::substr(pos, n)\<close>: throws \<^verbatim>\<open>std::out_of_range\<close> when \<open>pos\<close>
  is beyond the size, and otherwise gives the characters from \<open>pos\<close> on, at most \<open>n\<close> of
  them. The arguments are \<^verbatim>\<open>int64\<close> differences converted to \<^verbatim>\<open>size_t\<close>: a
  negative one becomes a number beyond every size.
\<close>

definition substr :: "string \<Rightarrow> int \<Rightarrow> int \<Rightarrow> string exec" where
  "substr s p n =
     (if p < 0 \<or> int (length s) < p then Crash
      else Done (if n < 0 then drop (nat p) s else take (nat n) (drop (nat p) s)))"

text \<open>
  Modelled from the spec: \<^verbatim>\<open>Contig\<close> (the catalog lookup of the reader's base class,
  whose source is not part of the files at hand). \<open>Lookup(name)\<close> gives the
  \<open>ContigInfo\<close> of that name and fails with NotFound when the name is absent.
\<close>

definition Contig :: "IndexedFastaReader \<Rightarrow> string \<Rightarrow> error + ContigInfo" where
  "Contig r chr =
     (case find (\<lambda>c. name c = chr) (contigs r) of
        None \<Rightarrow> Inl NotFound
      | Some c \<Rightarrow> Inr c)"

text \<open>
  Modelled from the spec: \<^verbatim>\<open>IsValidInterval\<close> (base class, source not at hand). The
  reference name must resolve in the catalog, and
  \<open>0 \<le> start \<le> end \<le> contig.length\<close>.
\<close>

definition IsValidInterval :: "IndexedFastaReader \<Rightarrow> Range \<Rightarrow> bool" where
  "IsValidInterval r rng =
     (case Contig r (reference_name rng) of
        Inl _ \<Rightarrow> False
      | Inr c \<Rightarrow> 0 \<le> start rng \<and> start rng \<le> end' rng \<and> end' rng \<le> n_bases c)"

text \<open>
  Modelled from the spec: \<^verbatim>\<open>RangeContains\<close> (utils, source not at hand). The window has
  the same reference name and \<open>window.start \<le> range.start \<and> range.end \<le> window.end\<close>.
\<close>

definition RangeContains :: "Range \<Rightarrow> Range \<Rightarrow> bool" where
  "RangeContains haystack needle =
     (reference_name needle = reference_name haystack \<and>
      start haystack \<le> start needle \<and> end' needle \<le> end' haystack)"

subsection \<open>FromFile and the constructor\<close>

text \<open>
  \<^verbatim>\<open>ExtractContigsFromFai\<close>: one \<open>ContigInfo\<close> per sequence of the index, in the
  order of the index. The two \<^verbatim>\<open>CHECK\<close>s end the process on a null name and on a
  negative length; so does a negative size of the vector.
\<close>

fun extract_contigs :: "faidx_t \<Rightarrow> nat list \<Rightarrow> ContigInfo list exec" where
  "extract_contigs fai [] = Done []"
| "extract_contigs fai (i # rest) =
     (case faidx_iseq fai (int i) of
        None \<Rightarrow> Crash
      | Some nm \<Rightarrow>
          if faidx_seq_len fai nm < 0 then Crash
          else
            (case extract_contigs fai rest of
               Crash \<Rightarrow> Crash
             | Done cs \<Rightarrow>
                 Done (\<lparr>name = nm, description = [], n_bases = faidx_seq_len fai nm,
                        pos_in_fasta = int i\<rparr> # cs)))"

definition ExtractContigsFromFai :: "faidx_t \<Rightarrow> ContigInfo list exec" where
  "ExtractContigsFromFai fai =
     (let n_contigs = faidx_nseq fai
      in if n_contigs < 0 then Crash else extract_contigs fai [0..<nat n_contigs])"

text \<open>
  \<^verbatim>\<open>FromFile\<close> gives NotFound when htslib cannot load the FASTA and its index (the
  parameter is what the load returned). The constructor starts with an empty cache
  string and no cached range.
\<close>

definition FromFile ::
  "string \<Rightarrow> faidx_t option \<Rightarrow> int \<Rightarrow> (error + IndexedFastaReader) exec" where
  "FromFile path loaded cache_size =
     (case loaded of
        None \<Rightarrow> Done (Inl NotFound)
      | Some fai \<Rightarrow>
          (case ExtractContigsFromFai fai of
             Crash \<Rightarrow> Crash
           | Done cs \<Rightarrow>
               Done (Inr \<lparr>fasta_path = path, faidx = Some fai, contigs = cs,
                          cache_size_bases = cache_size, small_read_cache = [],
                          cached_range = None\<rparr>)))"

subsection \<open>GetBases\<close>

type_synonym getbases_result = "((error + string) \<times> IndexedFastaReader \<times> fetch_call list) exec"

text \<open>The branch that prepares the chunk to fetch on a miss in cached mode (lines 126 to 133).\<close>

definition chunk_to_fetch :: "IndexedFastaReader \<Rightarrow> Range \<Rightarrow> Range exec" where
  "chunk_to_fetch r rng =
     (case Contig r (reference_name rng) of
        Inl _ \<Rightarrow> Crash
      | Inr c \<Rightarrow>
          let contig_n_bases = n_bases c;
              range_to_fetch = MakeRange (reference_name rng) (start rng)
                                 (min (start rng + cache_size_bases r) contig_n_bases)
          in if IsValidInterval r range_to_fetch then Done range_to_fetch else Crash)"

text \<open>The fetch and what follows it (lines 145 to 162).\<close>

definition fetch_and_return ::
  "faidx_t \<Rightarrow> IndexedFastaReader \<Rightarrow> Range \<Rightarrow> bool \<Rightarrow> Range \<Rightarrow> getbases_result" where
  "fetch_and_return fai r rng use_cache range_to_fetch =
     (let call = (reference_name range_to_fetch, start range_to_fetch, end' range_to_fetch - 1);
          (bases, len) = faidx_fetch_seq fai (reference_name range_to_fetch)
                           (start range_to_fetch) (end' range_to_fetch - 1)
      in if len \<le> 0 then Done (Inl InvalidArgument, r, [call])
         else
           let result = AsciiStrToUpper bases
           in if use_cache then
                (case substr result 0 (end' rng - start rng) of
                   Crash \<Rightarrow> Crash
                 | Done res \<Rightarrow>
                     Done (Inr res,
                           r\<lparr>small_read_cache := result, cached_range := Some range_to_fetch\<rparr>,
                           [call]))
              else Done (Inr result, r, [call]))"

definition GetBases :: "IndexedFastaReader \<Rightarrow> Range \<Rightarrow> getbases_result" where
  "GetBases r rng =
     (case faidx r of
        None \<Rightarrow> Done (Inl FailedPrecondition, r, [])
      | Some fai \<Rightarrow>
          if \<not> IsValidInterval r rng then Done (Inl InvalidArgument, r, [])
          else if start rng = end' rng then Done (Inr [], r, [])
          else
            let use_cache = (cache_size_bases r > 0 \<and>
                             end' rng - start rng \<le> cache_size_bases r)
            in if use_cache then
                 (case cached_range r of
                    Some cr \<Rightarrow>
                      if RangeContains cr rng then
                        (case substr (small_read_cache r) (start rng - start cr)
                                     (end' rng - start rng) of
                           Crash \<Rightarrow> Crash
                         | Done result \<Rightarrow> Done (Inr result, r, []))
                      else
                        (case chunk_to_fetch r rng of
                           Crash \<Rightarrow> Crash
                         | Done range_to_fetch \<Rightarrow>
                             fetch_and_return fai r rng use_cache range_to_fetch)
                  | None \<Rightarrow>
                      (case chunk_to_fetch r rng of
                         Crash \<Rightarrow> Crash
                       | Done range_to_fetch \<Rightarrow>
                           fetch_and_return fai r rng use_cache range_to_fetch))
               else fetch_and_return fai r rng use_cache rng)"

subsection \<open>Close\<close>

definition Close :: "IndexedFastaReader \<Rightarrow> error option \<times> IndexedFastaReader" where
  "Close r =
     (case faidx r of
        None \<Rightarrow> (Some FailedPrecondition, r)
      | Some _ \<Rightarrow> (None, r\<lparr>faidx := None\<rparr>))"

subsection \<open>The iterable\<close>

text \<open>\<^verbatim>\<open>Iterate\<close> always succeeds; the new iterable stands at position 0.\<close>

definition Iterate :: "IndexedFastaReader \<Rightarrow> error + IndexedFastaReaderIterable" where
  "Iterate r = Inr \<lparr>pos = 0\<rparr>"

text \<open>
  \<^verbatim>\<open>IndexedFastaReaderIterable::Next\<close>. The status that \<^verbatim>\<open>CheckIsAlive()\<close>
  returns is a parameter (the base class is not part of the files at hand): \<open>None\<close>
  is OK. The result \<open>Inr None\<close> is \<^verbatim>\<open>false\<close>; \<open>Inr (Some rec)\<close> is
  \<^verbatim>\<open>true\<close> with the record written to \<^verbatim>\<open>*out\<close>. \<^verbatim>\<open>ValueOrDie()\<close> on an
  error of \<^verbatim>\<open>GetBases\<close> ends the process.
\<close>

type_synonym next_result =
  "((error + (string \<times> string) option) \<times> IndexedFastaReaderIterable \<times>
    IndexedFastaReader \<times> fetch_call list) exec"

definition Next ::
  "error option \<Rightarrow> IndexedFastaReaderIterable \<Rightarrow> IndexedFastaReader \<Rightarrow> next_result" where
  "Next CheckIsAlive it fasta_reader =
     (case CheckIsAlive of
        Some e \<Rightarrow> Done (Inl e, it, fasta_reader, [])
      | None \<Rightarrow>
          if pos it \<ge> length (contigs fasta_reader) then Done (Inr None, it, fasta_reader, [])
          else
            let contig = contigs fasta_reader ! pos it;
                ref_name = name contig
            in (case GetBases fasta_reader (MakeRange ref_name 0 (n_bases contig)) of
                  Crash \<Rightarrow> Crash
                | Done (Inl e, r', calls) \<Rightarrow> Crash
                | Done (Inr bases, r', calls) \<Rightarrow>
                    Done (Inr (Some (ref_name, bases)), it\<lparr>pos := pos it + 1\<rparr>, r', calls)))"

text \<open>
  The caller's loop over the iterable: \<^verbatim>\<open>Next\<close> is called until it returns
  \<^verbatim>\<open>false\<close> or an error, and the records written to \<^verbatim>\<open>*out\<close> are collected.
  The loop ends because \<^verbatim>\<open>pos_\<close> grows and the catalog does not change.
\<close>

type_synonym drain_result =
  "((error + (string \<times> string) list) \<times> IndexedFastaReader \<times> fetch_call list) exec"

function drain ::
  "error option \<Rightarrow> IndexedFastaReaderIterable \<Rightarrow> IndexedFastaReader \<Rightarrow> drain_result" where
  "drain alive it r =
     (case Next alive it r of
        Crash \<Rightarrow> Crash
      | Done (Inl e, it', r', calls) \<Rightarrow> Done (Inl e, r', calls)
      | Done (Inr None, it', r', calls) \<Rightarrow> Done (Inr [], r', calls)
      | Done (Inr (Some rec), it', r', calls) \<Rightarrow>
          (case drain alive it' r' of
             Crash \<Rightarrow> Crash
           | Done (Inl e, r'', calls') \<Rightarrow> Done (Inl e, r'', calls @ calls')
           | Done (Inr recs, r'', calls') \<Rightarrow> Done (Inr (rec # recs), r'', calls @ calls')))"
  by pat_completeness auto
termination
  apply (relation "measure (\<lambda>(alive, it, r). length (contigs r) - pos it)")
   apply simp
  apply (auto simp: Next_def GetBases_def fetch_and_return_def substr_def Let_def
              split: option.splits if_splits exec.splits sum.splits prod.splits)
  done

declare drain.simps [simp del]

text \<open>
  The iteration as the specification words it: one \<open>GetBases(name, 0, length)\<close> per
  \<open>ContigInfo\<close>, in catalog order, each through the cache that the previous one left.
\<close>

fun read_contigs ::
  "IndexedFastaReader \<Rightarrow> ContigInfo list \<Rightarrow>
   ((string \<times> string) list \<times> IndexedFastaReader \<times> fetch_call list) exec" where
  "read_contigs r [] = Done ([], r, [])"
| "read_contigs r (c # cs) =
     (case GetBases r (MakeRange (name c) 0 (n_bases c)) of
        Crash \<Rightarrow> Crash
      | Done (Inl e, r', calls) \<Rightarrow> Crash
      | Done (Inr bases, r', calls) \<Rightarrow>
          (case read_contigs r' cs of
             Crash \<Rightarrow> Crash
           | Done (recs, r'', calls') \<Rightarrow> Done ((name c, bases) # recs, r'', calls @ calls')))"

subsection \<open>The store's contract and the cache invariant\<close>

text \<open>The bases of a sequence in the half-open interval from \<open>s\<close> to \<open>e\<close>.\<close>

definition region :: "string \<Rightarrow> int \<Rightarrow> int \<Rightarrow> string" where
  "region g s e = take (nat (e - s)) (drop (nat s) g)"

text \<open>
  A store serves a genome (the text of each contig, by name) when the catalog has the
  length of each contig and every fetch of an inclusive region inside a contig
  returns exactly the bases of that region, \<^verbatim>\<open>len\<close> being their number.
\<close>

definition serves :: "(string \<Rightarrow> string) \<Rightarrow> ContigInfo list \<Rightarrow> faidx_t \<Rightarrow> bool" where
  "serves genome cs fai =
     (\<forall>c \<in> set cs.
        n_bases c = int (length (genome (name c))) \<and>
        (\<forall>s e. 0 \<le> s \<and> s \<le> e \<and> e < n_bases c \<longrightarrow>
           faidx_fetch_seq fai (name c) s e
             = (region (genome (name c)) s (e + 1), e - s + 1)))"

text \<open>
  The invariant of the cache slot: the cached range is a valid interval and the cached
  string is the upper-cased text of that range.
\<close>

definition cache_inv :: "(string \<Rightarrow> string) \<Rightarrow> IndexedFastaReader \<Rightarrow> bool" where
  "cache_inv genome r =
     (case cached_range r of
        None \<Rightarrow> True
      | Some cr \<Rightarrow>
          IsValidInterval r cr \<and>
          small_read_cache r
            = AsciiStrToUpper (region (genome (reference_name cr)) (start cr) (end' cr)))"

subsection \<open>Example readers\<close>

definition example_bases :: "string \<Rightarrow> string" where
  "example_bases chr =
     (if chr = ''chr1'' then ''acgtnACGTNacgtnACGTN''
      else if chr = ''chr2'' then ''ttgacaGG'' else [])"

text \<open>An index of two contigs whose store serves every region of them.\<close>

definition example_fai :: faidx_t where
  "example_fai =
     \<lparr>faidx_nseq = 2,
      faidx_iseq = (\<lambda>i. if i = 0 then Some ''chr1'' else if i = 1 then Some ''chr2'' else None),
      faidx_seq_len =
        (\<lambda>chr. if chr = ''chr1'' \<or> chr = ''chr2'' then int (length (example_bases chr)) else - 1),
      faidx_fetch_seq =
        (\<lambda>chr s e.
           if 0 \<le> s \<and> s \<le> e \<and> e < int (length (example_bases chr))
           then (take (nat (e - s + 1)) (drop (nat s) (example_bases chr)), e - s + 1)
           else ([], - 2))\<rparr>"

text \<open>The same index over a FASTA file that ends after the first contig.\<close>

definition truncated_fai :: faidx_t where
  "truncated_fai =
     example_fai
       \<lparr>faidx_fetch_seq :=
          (\<lambda>chr s e. if chr = ''chr1'' then faidx_fetch_seq example_fai chr s e else ([], - 1))\<rparr>"

text \<open>The same index over a store whose every fetch fails with the general error.\<close>

definition failing_fai :: faidx_t where
  "failing_fai = example_fai\<lparr>faidx_fetch_seq := (\<lambda>chr s e. ([], - 1))\<rparr>"

text \<open>
  The same index over a FASTA file that is cut off inside the first contig: a fetch
  that reaches position 15 or a later one fails.
\<close>

definition short_fai :: faidx_t where
  "short_fai =
     example_fai
       \<lparr>faidx_fetch_seq :=
          (\<lambda>chr s e. if e < 15 then faidx_fetch_seq example_fai chr s e else ([], - 1))\<rparr>"

definition example_contigs :: "ContigInfo list" where
  "example_contigs =
     [\<lparr>name = ''chr1'', description = [], n_bases = 20, pos_in_fasta = 0\<rparr>,
      \<lparr>name = ''chr2'', description = [], n_bases = 8, pos_in_fasta = 1\<rparr>]"

text \<open>The reader as the constructor leaves it: empty cache string, no cached range.\<close>

definition example_reader :: "faidx_t \<Rightarrow> int \<Rightarrow> IndexedFastaReader" where
  "example_reader fai cache_size =
     \<lparr>fasta_path = ''ref.fa'', faidx = Some fai, contigs = example_contigs,
      cache_size_bases = cache_size, small_read_cache = [], cached_range = None\<rparr>"

text \<open>The same reader with the first ten bases of the first contig in the cache.\<close>

definition warm_reader :: "faidx_t \<Rightarrow> int \<Rightarrow> IndexedFastaReader" where
  "warm_reader fai cache_size =
     (example_reader fai cache_size)
       \<lparr>small_read_cache := ''ACGTNACGTN'', cached_range := Some (MakeRange ''chr1'' 0 10)\<rparr>"

lemmas example_defs =
  example_reader_def warm_reader_def example_contigs_def example_fai_def truncated_fai_def
  short_fai_def failing_fai_def example_bases_def MakeRange_def

section \<open>The catalog\<close>

text \<open>
  The catalog that \<^verbatim>\<open>ExtractContigsFromFai\<close> builds has one entry per sequence of
  the index, the entry at index \<open>i\<close> has ordinal \<open>i\<close>, and no length is negative.
\<close>

lemma extract_contigs_Done:
  assumes "extract_contigs fai ns = Done cs"
  shows "map pos_in_fasta cs = map int ns \<and> (\<forall>c \<in> set cs. 0 \<le> n_bases c)"
  using assms
proof (induction ns arbitrary: cs)
  case Nil
  then show ?case by simp
next
  case (Cons i rest)
  then show ?case
    by (auto split: option.splits if_splits exec.splits)
qed

lemma ExtractContigsFromFai_Done:
  assumes "ExtractContigsFromFai fai = Done cs"
  shows "length cs = nat (faidx_nseq fai) \<and>
         (\<forall>i < length cs. pos_in_fasta (cs ! i) = int i) \<and>
         (\<forall>c \<in> set cs. 0 \<le> n_bases c)"
proof -
  let ?ns = "[0..<nat (faidx_nseq fai)]"
  have e: "extract_contigs fai ?ns = Done cs"
    using assms by (simp add: ExtractContigsFromFai_def Let_def split: if_splits)
  have m: "map pos_in_fasta cs = map int ?ns" and n: "\<forall>c \<in> set cs. 0 \<le> n_bases c"
    using extract_contigs_Done [OF e] by simp_all
  have l: "length cs = nat (faidx_nseq fai)"
    using arg_cong [OF m, of length] by simp
  have "pos_in_fasta (cs ! i) = int i" if "i < length cs" for i
  proof -
    have "pos_in_fasta (cs ! i) = map pos_in_fasta cs ! i"
      using that by simp
    also have "\<dots> = int (?ns ! i)"
      using that l by (simp add: m)
    finally show ?thesis
      using that l by simp
  qed
  then show ?thesis
    using l n by simp
qed

section \<open>Facts about GetBases\<close>

lemma Contig_cache_update [simp]:
  "Contig (r\<lparr>small_read_cache := b, cached_range := w\<rparr>) chr = Contig r chr"
  by (simp add: Contig_def)

lemma IsValidInterval_cache_update [simp]:
  "IsValidInterval (r\<lparr>small_read_cache := b, cached_range := w\<rparr>) rng = IsValidInterval r rng"
  by (simp add: IsValidInterval_def)

lemma substr_eq:
  assumes "0 \<le> p" and "p \<le> int (length s)" and "0 \<le> n"
  shows "substr s p n = Done (take (nat n) (drop (nat p) s))"
  using assms by (simp add: substr_def)

lemma fetch_and_return_eq:
  assumes "faidx_fetch_seq fai (reference_name w) (start w) (end' w - 1) = (bases, len)"
    and "start rng \<le> end' rng"
  shows "fetch_and_return fai r rng uc w =
     (if len \<le> 0 then Done (Inl InvalidArgument, r, [(reference_name w, start w, end' w - 1)])
      else if uc then
        Done (Inr (take (nat (end' rng - start rng)) (AsciiStrToUpper bases)),
              r\<lparr>small_read_cache := AsciiStrToUpper bases, cached_range := Some w\<rparr>,
              [(reference_name w, start w, end' w - 1)])
      else Done (Inr (AsciiStrToUpper bases), r, [(reference_name w, start w, end' w - 1)]))"
  using assms by (simp add: fetch_and_return_def substr_eq Let_def)

lemma fetch_and_return_error:
  assumes "fetch_and_return fai r rng uc w = Done (res, r', calls)"
    and "(chr, s, e) \<in> set calls" and "snd (faidx_fetch_seq fai chr s e) \<le> 0"
  shows "res = Inl InvalidArgument \<and> r' = r"
  using assms
  by (auto simp: fetch_and_return_def substr_def Let_def split: prod.splits if_splits)

lemma fetch_and_return_frame:
  assumes "fetch_and_return fai r rng uc w = Done (res, r', calls)"
  shows "faidx r' = faidx r \<and> contigs r' = contigs r \<and> cache_size_bases r' = cache_size_bases r"
  using assms
  by (auto simp: fetch_and_return_def substr_def Let_def split: prod.splits if_splits)

text \<open>\<open>GetBases\<close> writes the two cache members and nothing else.\<close>

lemma GetBases_frame:
  assumes "GetBases r rng = Done (res, r', calls)"
  shows "faidx r' = faidx r \<and> contigs r' = contigs r \<and> cache_size_bases r' = cache_size_bases r"
  using assms
  by (auto simp: GetBases_def Let_def split: if_splits option.splits exec.splits
           dest: fetch_and_return_frame)

text \<open>A result that is not an error was given to a valid interval.\<close>

lemma GetBases_Inr_valid:
  assumes "faidx r = Some fai" and "GetBases r rng = Done (Inr bases, r', calls)"
  shows "IsValidInterval r rng"
  using assms by (auto simp: GetBases_def split: if_splits)

text \<open>The \<^verbatim>\<open>CHECK\<close> on the chunk to fetch holds for every valid interval.\<close>

lemma chunk_to_fetch_valid:
  assumes "IsValidInterval r rng" and "0 < cache_size_bases r"
    and "Contig r (reference_name rng) = Inr c"
  shows "chunk_to_fetch r rng =
           Done (MakeRange (reference_name rng) (start rng)
                   (min (start rng + cache_size_bases r) (n_bases c)))"
  using assms by (auto simp: chunk_to_fetch_def IsValidInterval_def MakeRange_def Let_def)

lemma GetBases_failure_keeps_reader:
  assumes "faidx r = Some fai"
    and "GetBases r rng = Done (res, r', calls)"
    and "(chr, s, e) \<in> set calls" and "snd (faidx_fetch_seq fai chr s e) \<le> 0"
  shows "res = Inl InvalidArgument \<and> r' = r"
  using assms
  by (auto simp: GetBases_def Let_def split: if_splits option.splits exec.splits
           dest: fetch_and_return_error)

lemma GetBases_miss_eq:
  assumes "faidx r = Some fai" and "IsValidInterval r rng" and "start rng \<noteq> end' rng"
    and "0 < cache_size_bases r" and "end' rng - start rng \<le> cache_size_bases r"
    and "\<forall>cr. cached_range r = Some cr \<longrightarrow> \<not> RangeContains cr rng"
    and "Contig r (reference_name rng) = Inr c"
    and "w = MakeRange (reference_name rng) (start rng)
               (min (start rng + cache_size_bases r) (n_bases c))"
    and "faidx_fetch_seq fai (reference_name rng) (start rng) (end' w - 1) = (bases, len)"
  shows "GetBases r rng =
     (if len \<le> 0
      then Done (Inl InvalidArgument, r, [(reference_name rng, start rng, end' w - 1)])
      else Done (Inr (take (nat (end' rng - start rng)) (AsciiStrToUpper bases)),
                 r\<lparr>small_read_cache := AsciiStrToUpper bases, cached_range := Some w\<rparr>,
                 [(reference_name rng, start rng, end' w - 1)]))"
proof -
  have w: "chunk_to_fetch r rng = Done w"
    using assms by (simp add: chunk_to_fetch_valid)
  have nm: "reference_name w = reference_name rng" "start w = start rng"
    using assms by (simp_all add: MakeRange_def)
  have f: "faidx_fetch_seq fai (reference_name w) (start w) (end' w - 1) = (bases, len)"
    using assms nm by simp
  have le: "start rng \<le> end' rng"
    using assms(2) by (auto simp: IsValidInterval_def split: sum.splits)
  show ?thesis
    using assms(1-6) w nm
    by (cases "cached_range r")
       (simp_all add: GetBases_def fetch_and_return_eq [where fai = fai and w = w, OF f le])
qed

lemma GetBases_direct_eq:
  assumes "faidx r = Some fai" and "IsValidInterval r rng" and "start rng \<noteq> end' rng"
    and "\<not> (cache_size_bases r > 0 \<and> end' rng - start rng \<le> cache_size_bases r)"
    and "faidx_fetch_seq fai (reference_name rng) (start rng) (end' rng - 1) = (bases, len)"
  shows "GetBases r rng =
           Done (if len \<le> 0 then Inl InvalidArgument else Inr (AsciiStrToUpper bases),
                 r, [(reference_name rng, start rng, end' rng - 1)])"
  using assms by (auto simp: GetBases_def fetch_and_return_def Let_def)

text \<open>
  Whatever the store returns, the same call made again right away has the same result
  and leaves the reader as the first call left it.
\<close>

lemma GetBases_twice:
  assumes "GetBases r rng = Done (res, r1, calls)"
  shows "\<exists>calls2. GetBases r1 rng = Done (res, r1, calls2)"
proof (cases "faidx r")
  case None
  then show ?thesis
    using assms by (auto simp: GetBases_def)
next
  case (Some fai)
  note o = this
  show ?thesis
  proof (cases "r1 = r")
    case True
    then show ?thesis
      using assms by auto
  next
    case changed: False
    have v: "IsValidInterval r rng" and ne: "start rng \<noteq> end' rng"
      using assms changed o by (auto simp: GetBases_def split: if_splits)
    have uc: "0 < cache_size_bases r" "end' rng - start rng \<le> cache_size_bases r"
      using assms changed o v ne
      by (auto simp: GetBases_def Let_def fetch_and_return_def split: if_splits prod.splits)
    have m: "\<forall>cr. cached_range r = Some cr \<longrightarrow> \<not> RangeContains cr rng"
      using assms changed o v ne uc
      by (auto simp: GetBases_def Let_def split: if_splits exec.splits)
    obtain c where c: "Contig r (reference_name rng) = Inr c"
      and b: "0 \<le> start rng" "start rng \<le> end' rng" "end' rng \<le> n_bases c"
      using v by (auto simp: IsValidInterval_def split: sum.splits)
    let ?w = "MakeRange (reference_name rng) (start rng)
                (min (start rng + cache_size_bases r) (n_bases c))"
    obtain bases len where f: "faidx_fetch_seq fai (reference_name rng) (start rng) (end' ?w - 1) = (bases, len)"
      by (cases "faidx_fetch_seq fai (reference_name rng) (start rng) (end' ?w - 1)")
    have eq: "GetBases r rng =
       (if len \<le> 0
        then Done (Inl InvalidArgument, r, [(reference_name rng, start rng, end' ?w - 1)])
        else Done (Inr (take (nat (end' rng - start rng)) (AsciiStrToUpper bases)),
                   r\<lparr>small_read_cache := AsciiStrToUpper bases, cached_range := Some ?w\<rparr>,
                   [(reference_name rng, start rng, end' ?w - 1)]))"
      using GetBases_miss_eq [OF o v ne uc m c refl f] .
    then have pos: "\<not> len \<le> 0"
      using assms changed by auto
    have res: "res = Inr (take (nat (end' rng - start rng)) (AsciiStrToUpper bases))"
      and r1: "r1 = r\<lparr>small_read_cache := AsciiStrToUpper bases, cached_range := Some ?w\<rparr>"
      using eq pos assms by simp_all
    have h: "RangeContains ?w rng"
      using b uc by (simp add: RangeContains_def MakeRange_def)
    have "GetBases r1 rng = Done (res, r1, [])"
      using o v ne uc h b unfolding r1 res
      by (simp add: GetBases_def substr_eq MakeRange_def)
    then show ?thesis
      by blast
  qed
qed

section \<open>Reads under the store's contract\<close>

lemma Contig_Inr:
  assumes "Contig r chr = Inr c"
  shows "c \<in> set (contigs r) \<and> name c = chr"
  using assms by (auto simp: Contig_def find_Some_iff split: option.splits)

lemma region_empty [simp]: "region g s s = []"
  by (simp add: region_def)

lemma region_whole: "region g 0 (int (length g)) = g"
  by (simp add: region_def)

lemma length_region:
  assumes "0 \<le> s" and "s \<le> e" and "e \<le> int (length g)"
  shows "int (length (region g s e)) = e - s"
  using assms by (simp add: region_def)

lemma region_of_region:
  assumes "0 \<le> cs" and "cs \<le> s" and "s \<le> e" and "e \<le> ce"
  shows "take (nat (e - s)) (drop (nat (s - cs)) (region g cs ce)) = region g s e"
proof -
  have a: "nat (s - cs) + nat cs = nat s"
    using assms by simp
  have b: "min (nat (e - s)) (nat (ce - cs) - nat (s - cs)) = nat (e - s)"
    using assms by simp
  show ?thesis
    by (simp add: region_def drop_take a b)
qed

lemma take_AsciiStrToUpper: "take n (AsciiStrToUpper s) = AsciiStrToUpper (take n s)"
  by (simp add: AsciiStrToUpper_def take_map)

lemma drop_AsciiStrToUpper: "drop n (AsciiStrToUpper s) = AsciiStrToUpper (drop n s)"
  by (simp add: AsciiStrToUpper_def drop_map)

lemma length_AsciiStrToUpper [simp]: "length (AsciiStrToUpper s) = length s"
  by (simp add: AsciiStrToUpper_def)

lemma AsciiStrToUpper_Nil [simp]: "AsciiStrToUpper [] = []"
  by (simp add: AsciiStrToUpper_def)

lemma not_lower_toupper: "\<not> ascii_islower (ascii_toupper c)"
  by (auto simp: ascii_islower_def ascii_toupper_def)

lemma AsciiStrToUpper_upper: "c \<in> set (AsciiStrToUpper s) \<Longrightarrow> \<not> ascii_islower c"
  by (auto simp: AsciiStrToUpper_def not_lower_toupper)

lemma serves_fetch:
  assumes "serves g cs fai" and "c \<in> set cs" and "0 \<le> s" and "s < e" and "e \<le> n_bases c"
  shows "faidx_fetch_seq fai (name c) s (e - 1) = (region (g (name c)) s e, e - s)"
  using assms by (auto simp: serves_def dest!: bspec)

lemma serves_length:
  assumes "serves g cs fai" and "c \<in> set cs"
  shows "n_bases c = int (length (g (name c)))"
  using assms by (simp add: serves_def)

lemma cache_inv_empty: "cached_range r = None \<Longrightarrow> cache_inv g r"
  by (simp add: cache_inv_def)

lemma cache_inv_FromFile: "FromFile path loaded k = Done (Inr r) \<Longrightarrow> cache_inv g r"
  by (auto simp: FromFile_def cache_inv_def split: option.splits exec.splits)

lemma cache_inv_Close: "cache_inv g r \<Longrightarrow> cache_inv g (snd (Close r))"
  by (cases "faidx r"; cases "cached_range r")
     (simp_all add: Close_def cache_inv_def IsValidInterval_def Contig_def)

text \<open>The hit path.\<close>

lemma GetBases_hit:
  assumes o: "faidx r = Some fai" and v: "IsValidInterval r rng" and ne: "start rng \<noteq> end' rng"
    and uc: "0 < cache_size_bases r" "end' rng - start rng \<le> cache_size_bases r"
    and cr: "cached_range r = Some cr" and h: "RangeContains cr rng"
    and ci: "cache_inv g r"
    and sv: "serves g (contigs r) fai"
  shows "GetBases r rng =
           Done (Inr (AsciiStrToUpper (region (g (reference_name rng)) (start rng) (end' rng))),
                 r, [])"
proof -
  obtain c where c: "Contig r (reference_name cr) = Inr c"
    and b: "0 \<le> start cr" "start cr \<le> end' cr" "end' cr \<le> n_bases c"
    using ci cr by (auto simp: cache_inv_def IsValidInterval_def split: sum.splits)
  have len: "n_bases c = int (length (g (reference_name cr)))"
    using serves_length [OF sv] Contig_Inr [OF c] by auto
  have sc: "small_read_cache r = AsciiStrToUpper (region (g (reference_name cr)) (start cr) (end' cr))"
    using ci cr by (simp add: cache_inv_def)
  have nm: "reference_name rng = reference_name cr"
    and in1: "start cr \<le> start rng" and in2: "end' rng \<le> end' cr"
    using h by (simp_all add: RangeContains_def)
  have lt: "start rng < end' rng"
    using v ne by (auto simp: IsValidInterval_def split: sum.splits)
  have l: "int (length (small_read_cache r)) = end' cr - start cr"
    using sc length_region [OF b(1,2)] b(3) len by simp
  have p: "0 \<le> start rng - start cr" "start rng - start cr \<le> int (length (small_read_cache r))"
    "0 \<le> end' rng - start rng"
    using l in1 in2 lt by simp_all
  have "take (nat (end' rng - start rng)) (drop (nat (start rng - start cr)) (small_read_cache r))
          = AsciiStrToUpper (region (g (reference_name cr)) (start rng) (end' rng))"
    using region_of_region [OF b(1) in1 _ in2, of "g (reference_name cr)"] lt
    by (simp add: sc take_AsciiStrToUpper drop_AsciiStrToUpper)
  then show ?thesis
    using o v ne uc cr h nm by (simp add: GetBases_def substr_eq [OF p])
qed

text \<open>The two paths that fetch.\<close>

lemma GetBases_miss:
  assumes o: "faidx r = Some fai" and v: "IsValidInterval r rng" and ne: "start rng \<noteq> end' rng"
    and uc: "0 < cache_size_bases r" "end' rng - start rng \<le> cache_size_bases r"
    and m: "\<forall>cr. cached_range r = Some cr \<longrightarrow> \<not> RangeContains cr rng"
    and c: "Contig r (reference_name rng) = Inr c"
    and sv: "serves g (contigs r) fai"
  shows "GetBases r rng =
           Done (Inr (AsciiStrToUpper (region (g (reference_name rng)) (start rng) (end' rng))),
                 r\<lparr>small_read_cache :=
                      AsciiStrToUpper (region (g (reference_name rng)) (start rng)
                        (min (start rng + cache_size_bases r) (n_bases c))),
                    cached_range :=
                      Some (MakeRange (reference_name rng) (start rng)
                        (min (start rng + cache_size_bases r) (n_bases c)))\<rparr>,
                 [(reference_name rng, start rng,
                   min (start rng + cache_size_bases r) (n_bases c) - 1)])"
proof -
  let ?e = "min (start rng + cache_size_bases r) (n_bases c)"
  let ?w = "MakeRange (reference_name rng) (start rng) ?e"
  have b: "0 \<le> start rng" "start rng < end' rng" "end' rng \<le> n_bases c"
    using v ne c by (auto simp: IsValidInterval_def)
  have cm: "c \<in> set (contigs r)" "name c = reference_name rng"
    using Contig_Inr [OF c] by simp_all
  have e: "start rng < ?e" "?e \<le> n_bases c" "end' rng \<le> ?e"
    using b uc by simp_all
  have f: "faidx_fetch_seq fai (reference_name rng) (start rng) (end' ?w - 1)
             = (region (g (reference_name rng)) (start rng) ?e, ?e - start rng)"
    using serves_fetch [OF sv cm(1) b(1) e(1) e(2)] cm(2) by (simp add: MakeRange_def)
  have t: "take (nat (end' rng - start rng)) (region (g (reference_name rng)) (start rng) ?e)
             = region (g (reference_name rng)) (start rng) (end' rng)"
    using region_of_region [of "start rng" "start rng" "end' rng" ?e "g (reference_name rng)"]
      b e by simp
  show ?thesis
    using GetBases_miss_eq [OF o v ne uc m c refl f] e(1) t
    by (simp add: take_AsciiStrToUpper MakeRange_def)
qed

lemma GetBases_direct:
  assumes o: "faidx r = Some fai" and v: "IsValidInterval r rng" and ne: "start rng \<noteq> end' rng"
    and uc: "\<not> (0 < cache_size_bases r \<and> end' rng - start rng \<le> cache_size_bases r)"
    and sv: "serves g (contigs r) fai"
  shows "GetBases r rng =
           Done (Inr (AsciiStrToUpper (region (g (reference_name rng)) (start rng) (end' rng))),
                 r, [(reference_name rng, start rng, end' rng - 1)])"
proof -
  obtain c where c: "Contig r (reference_name rng) = Inr c"
    and b: "0 \<le> start rng" "start rng < end' rng" "end' rng \<le> n_bases c"
    using v ne by (auto simp: IsValidInterval_def split: sum.splits)
  have cm: "c \<in> set (contigs r)" "name c = reference_name rng"
    using Contig_Inr [OF c] by simp_all
  have f: "faidx_fetch_seq fai (reference_name rng) (start rng) (end' rng - 1)
             = (region (g (reference_name rng)) (start rng) (end' rng), end' rng - start rng)"
    using serves_fetch [OF sv cm(1) b] cm(2) by simp
  show ?thesis
    using GetBases_direct_eq [OF o v ne uc f] b by simp
qed

text \<open>
  Every path: the result is the upper-cased text of the requested range, and the cache
  invariant holds again afterwards.
\<close>

lemma GetBases_served:
  assumes o: "faidx r = Some fai" and sv: "serves g (contigs r) fai"
    and ci: "cache_inv g r" and v: "IsValidInterval r rng"
  shows "\<exists>r' calls.
           GetBases r rng =
             Done (Inr (AsciiStrToUpper (region (g (reference_name rng)) (start rng) (end' rng))),
                   r', calls) \<and>
           faidx r' = Some fai \<and> contigs r' = contigs r \<and>
           cache_size_bases r' = cache_size_bases r \<and> cache_inv g r'"
proof (cases "start rng = end' rng")
  case True
  then show ?thesis
    using o v ci sv by (simp add: GetBases_def)
next
  case ne: False
  show ?thesis
  proof (cases "0 < cache_size_bases r \<and> end' rng - start rng \<le> cache_size_bases r")
    case False
    then show ?thesis
      using GetBases_direct [OF o v ne False sv] o ci by simp
  next
    case uc: True
    show ?thesis
    proof (cases "\<exists>cr. cached_range r = Some cr \<and> RangeContains cr rng")
      case True
      then obtain cr where "cached_range r = Some cr" "RangeContains cr rng"
        by blast
      then show ?thesis
        using GetBases_hit [OF o v ne _ _ _ _ ci sv] uc o ci by simp
    next
      case False
      then have m: "\<forall>cr. cached_range r = Some cr \<longrightarrow> \<not> RangeContains cr rng"
        by blast
      obtain c where c: "Contig r (reference_name rng) = Inr c"
        and b: "0 \<le> start rng" "start rng \<le> end' rng" "end' rng \<le> n_bases c"
        using v by (auto simp: IsValidInterval_def split: sum.splits)
      have w: "IsValidInterval r (MakeRange (reference_name rng) (start rng)
                 (min (start rng + cache_size_bases r) (n_bases c)))"
        using c b uc by (simp add: IsValidInterval_def MakeRange_def)
      show ?thesis
        using GetBases_miss [OF o v ne _ _ m c sv] uc o w
        by (simp add: cache_inv_def MakeRange_def)
    qed
  qed
qed

section \<open>The iteration\<close>

text \<open>The loop over \<open>Next\<close> reads the contigs from \<open>pos\<close> on, one \<open>GetBases\<close> each.\<close>

lemma drain_read_contigs:
  "drain None it r =
     (case read_contigs r (drop (pos it) (contigs r)) of
        Crash \<Rightarrow> Crash
      | Done (recs, r', calls) \<Rightarrow> Done (Inr recs, r', calls))"
proof (induction "length (contigs r) - pos it" arbitrary: it r)
  case 0
  then show ?case
    by (simp add: drain.simps Next_def)
next
  case (Suc k)
  then have lt: "pos it < length (contigs r)"
    by simp
  let ?c = "contigs r ! pos it"
  have d: "drop (pos it) (contigs r) = ?c # drop (Suc (pos it)) (contigs r)"
    using lt by (simp add: Cons_nth_drop_Suc)
  show ?case
  proof (cases "GetBases r (MakeRange (name ?c) 0 (n_bases ?c))")
    case Crash
    then show ?thesis
      using lt d by (simp add: drain.simps Next_def)
  next
    case (Done x)
    obtain res r' calls where x: "x = (res, r', calls)"
      by (cases x)
    show ?thesis
    proof (cases res)
      case (Inl e)
      then show ?thesis
        using lt d Done x by (simp add: drain.simps Next_def)
    next
      case (Inr bases)
      have fr: "contigs r' = contigs r"
        using GetBases_frame Done x by blast
      have k: "k = length (contigs r') - pos (it\<lparr>pos := pos it + 1\<rparr>)"
        using Suc.hyps(2) fr by simp
      have nx: "Next None it r
                  = Done (Inr (Some (name ?c, bases)), it\<lparr>pos := pos it + 1\<rparr>, r', calls)"
        using lt Done x Inr by (simp add: Next_def)
      show ?thesis
        using Suc.hyps(1) [OF k] nx d Done x Inr fr
        by (simp add: drain.simps [of None it r] split: exec.splits prod.splits sum.splits)
    qed
  qed
qed

lemma read_contigs_served:
  assumes "faidx r = Some fai" and "serves g (contigs r) fai" and "cache_inv g r"
    and "set cs \<subseteq> set (contigs r)"
  shows "\<exists>r' calls.
           read_contigs r cs
             = Done (map (\<lambda>c. (name c, AsciiStrToUpper (g (name c)))) cs, r', calls) \<and>
           faidx r' = Some fai \<and> contigs r' = contigs r \<and> cache_inv g r'"
  using assms
proof (induction cs arbitrary: r)
  case Nil
  then show ?case by simp
next
  case (Cons c cs)
  have cm: "c \<in> set (contigs r)"
    using Cons.prems(4) by simp
  have n: "n_bases c = int (length (g (name c)))"
    using serves_length [OF Cons.prems(2) cm] .
  obtain c' where c': "Contig r (name c) = Inr c'"
    using cm by (cases "Contig r (name c)") (auto simp: Contig_def find_None_iff split: option.splits)
  have "n_bases c' = int (length (g (name c)))"
    using serves_length [OF Cons.prems(2)] Contig_Inr [OF c'] by auto
  then have v: "IsValidInterval r (MakeRange (name c) 0 (n_bases c))"
    using c' n by (simp add: IsValidInterval_def MakeRange_def)
  obtain r1 calls1 where g1:
    "GetBases r (MakeRange (name c) 0 (n_bases c))
       = Done (Inr (AsciiStrToUpper (g (name c))), r1, calls1)"
    and r1: "faidx r1 = Some fai" "contigs r1 = contigs r" "cache_inv g r1"
    using GetBases_served [OF Cons.prems(1,2,3) v] n
    by (auto simp: MakeRange_def region_whole)
  have "\<exists>r' calls.
          read_contigs r1 cs
            = Done (map (\<lambda>c. (name c, AsciiStrToUpper (g (name c)))) cs, r', calls) \<and>
          faidx r' = Some fai \<and> contigs r' = contigs r1 \<and> cache_inv g r'"
    using Cons.IH [of r1] r1 Cons.prems(2,4) by simp
  then show ?case
    using g1 r1 by auto
qed

section \<open>The example readers\<close>

lemma toupper_simps:
  "ascii_toupper CHR ''a'' = CHR ''A''" "ascii_toupper CHR ''c'' = CHR ''C''"
  "ascii_toupper CHR ''g'' = CHR ''G''" "ascii_toupper CHR ''t'' = CHR ''T''"
  "ascii_toupper CHR ''n'' = CHR ''N''" "ascii_toupper CHR ''A'' = CHR ''A''"
  "ascii_toupper CHR ''C'' = CHR ''C''" "ascii_toupper CHR ''G'' = CHR ''G''"
  "ascii_toupper CHR ''T'' = CHR ''T''" "ascii_toupper CHR ''N'' = CHR ''N''"
  by code_simp+

lemmas model_defs =
  GetBases_def IsValidInterval_def Contig_def chunk_to_fetch_def fetch_and_return_def
  substr_def RangeContains_def AsciiStrToUpper_def toupper_simps Let_def

lemma IsValid_example:
  "IsValidInterval (example_reader fai k) (MakeRange ''chr1'' s e) = (0 \<le> s \<and> s \<le> e \<and> e \<le> 20)"
  "IsValidInterval (example_reader fai k) (MakeRange ''chr2'' s e) = (0 \<le> s \<and> s \<le> e \<and> e \<le> 8)"
  "IsValidInterval (warm_reader fai k) (MakeRange ''chr1'' s e) = (0 \<le> s \<and> s \<le> e \<and> e \<le> 20)"
  "IsValidInterval (warm_reader fai k) (MakeRange ''chr2'' s e) = (0 \<le> s \<and> s \<le> e \<and> e \<le> 8)"
  by (simp_all add: IsValidInterval_def Contig_def example_defs)

text \<open>Both warm readers are what a first read of the fresh reader leaves.\<close>

lemma warm_reader_reached:
  "GetBases (example_reader example_fai 10) (MakeRange ''chr1'' 0 5)
     = Done (Inr ''ACGTN'', warm_reader example_fai 10, [(''chr1'', 0, 9)])"
  "GetBases (example_reader truncated_fai 10) (MakeRange ''chr1'' 0 5)
     = Done (Inr ''ACGTN'', warm_reader truncated_fai 10, [(''chr1'', 0, 9)])"
  by (simp_all add: model_defs example_defs)

text \<open>A valid range read over the failing store: the result is InvalidArgument.\<close>

lemma failing_store_read:
  "IsValidInterval (example_reader failing_fai 10) (MakeRange ''chr1'' 0 5) \<and>
   GetBases (example_reader failing_fai 10) (MakeRange ''chr1'' 0 5)
     = Done (Inl InvalidArgument, example_reader failing_fai 10, [(''chr1'', 0, 9)])"
  by (simp add: model_defs example_defs)

lemma ExtractContigsFromFai_example: "ExtractContigsFromFai example_fai = Done example_contigs"
  by (simp add: ExtractContigsFromFai_def example_fai_def example_contigs_def example_bases_def
                upt_rec)

lemma example_reader_FromFile:
  "FromFile ''ref.fa'' (Some example_fai) k = Done (Inr (example_reader example_fai k))"
  by (simp add: FromFile_def ExtractContigsFromFai_example example_reader_def)

lemma serves_example: "serves example_bases example_contigs example_fai"
proof -
  have eq: "e + 1 - s = e - s + 1" for s e :: int
    by simp
  show ?thesis
    by (simp add: serves_def region_def example_contigs_def example_fai_def example_bases_def eq)
qed

lemma cache_inv_example:
  "cache_inv example_bases (example_reader fai k)"
  "cache_inv example_bases (warm_reader fai k)"
  by (simp_all add: cache_inv_def IsValidInterval_def Contig_def region_def AsciiStrToUpper_def
                    toupper_simps example_defs)

section \<open>The claims\<close>

text \<open>
  C1. For an open reader whose cache slot satisfies the invariant, over a store that
  serves the catalog's contigs, and for every valid range, \<open>GetBases\<close> succeeds and
  returns exactly \<open>end - start\<close> characters, none of them a lower-case letter. The
  statement makes no assumption on the path, so it covers the hit, the miss in cached
  mode and the uncached fetch.
\<close>

theorem GetBases_length_and_case:
  assumes "faidx r = Some fai" and "serves g (contigs r) fai" and "cache_inv g r"
    and "IsValidInterval r rng"
  shows "\<exists>bases r' calls.
           GetBases r rng = Done (Inr bases, r', calls) \<and>
           int (length bases) = end' rng - start rng \<and>
           (\<forall>c \<in> set bases. \<not> ascii_islower c)"
proof -
  obtain c where c: "Contig r (reference_name rng) = Inr c"
    and b: "0 \<le> start rng" "start rng \<le> end' rng" "end' rng \<le> n_bases c"
    using assms(4) by (auto simp: IsValidInterval_def split: sum.splits)
  have "n_bases c = int (length (g (reference_name rng)))"
    using serves_length [OF assms(2)] Contig_Inr [OF c] by auto
  then have l: "int (length (region (g (reference_name rng)) (start rng) (end' rng)))
                  = end' rng - start rng"
    using length_region [OF b(1,2)] b(3) by simp
  show ?thesis
    using GetBases_served [OF assms] l AsciiStrToUpper_upper by fastforce
qed

theorem GetBases_length_and_case_witness:
  "serves example_bases (contigs (warm_reader example_fai 10)) example_fai \<and>
   cache_inv example_bases (warm_reader example_fai 10) \<and>
   IsValidInterval (warm_reader example_fai 10) (MakeRange ''chr1'' 2 7) \<and>
   GetBases (warm_reader example_fai 10) (MakeRange ''chr1'' 2 7)
     = Done (Inr ''GTNAC'', warm_reader example_fai 10, []) \<and>
   (\<exists>bases r' calls.
      GetBases (warm_reader example_fai 10) (MakeRange ''chr1'' 2 7) = Done (Inr bases, r', calls) \<and>
      int (length bases) = 7 - 2 \<and> (\<forall>c \<in> set bases. \<not> ascii_islower c)) \<and>
   (\<exists>bases r' calls.
      GetBases (warm_reader example_fai 10) (MakeRange ''chr2'' 0 3) = Done (Inr bases, r', calls) \<and>
      int (length bases) = 3 - 0 \<and> (\<forall>c \<in> set bases. \<not> ascii_islower c)) \<and>
   (\<exists>bases r' calls.
      GetBases (warm_reader example_fai 10) (MakeRange ''chr1'' 3 16) = Done (Inr bases, r', calls) \<and>
      int (length bases) = 16 - 3 \<and> (\<forall>c \<in> set bases. \<not> ascii_islower c))"
proof -
  have c: "contigs (warm_reader example_fai k) = example_contigs" for k
    by (simp add: example_defs)
  have o: "faidx (warm_reader example_fai k) = Some example_fai" for k
    by (simp add: example_defs)
  have s: "serves example_bases (contigs (warm_reader example_fai k)) example_fai" for k
    using serves_example by (simp add: c)
  have g: "GetBases (warm_reader example_fai 10) (MakeRange ''chr1'' 2 7)
             = Done (Inr ''GTNAC'', warm_reader example_fai 10, [])"
    by (simp add: model_defs example_defs)
  show ?thesis
    using GetBases_length_and_case [OF o s cache_inv_example(2),
        of 10 "MakeRange ''chr1'' 2 7"]
      GetBases_length_and_case [OF o s cache_inv_example(2), of 10 "MakeRange ''chr2'' 0 3"]
      GetBases_length_and_case [OF o s cache_inv_example(2), of 10 "MakeRange ''chr1'' 3 16"]
      s [of 10] g
    by (simp add: IsValid_example cache_inv_example) (simp add: MakeRange_def)
qed

text \<open>
  C2, as stated, fails when the first call was itself answered from the cache: the
  cached window then starts before \<open>a\<close> and may end before \<open>min (a + C) n\<close>. The
  reader below has cache size 10 and, after \<open>GetBases(chr1, 0, 5)\<close>, the window from 0
  to 10. \<open>GetBases(chr1, 2, 7)\<close> succeeds from the cache. The valid request from 2 to 12
  starts at \<open>a = 2\<close> and ends at \<open>min (2 + 10) 20\<close>, and yet goes to the store.
\<close>

theorem containment_after_hit_counterexample:
  "GetBases (example_reader example_fai 10) (MakeRange ''chr1'' 0 5)
     = Done (Inr ''ACGTN'', warm_reader example_fai 10, [(''chr1'', 0, 9)]) \<and>
   GetBases (warm_reader example_fai 10) (MakeRange ''chr1'' 2 7)
     = Done (Inr ''GTNAC'', warm_reader example_fai 10, []) \<and>
   IsValidInterval (warm_reader example_fai 10) (MakeRange ''chr1'' 2 12) \<and>
   (2 :: int) \<le> 2 \<and> (12 :: int) \<le> min (2 + cache_size_bases (warm_reader example_fai 10)) 20 \<and>
   GetBases (warm_reader example_fai 10) (MakeRange ''chr1'' 2 12)
     = Done (Inr ''GTNACGTNAC'',
             (warm_reader example_fai 10)
               \<lparr>small_read_cache := ''GTNACGTNAC'', cached_range := Some (MakeRange ''chr1'' 2 12)\<rparr>,
             [(''chr1'', 2, 11)])"
  by (simp add: model_defs example_defs)

text \<open>
  C2, amended. On an open reader with a positive cache size, whatever the store, let
  \<open>GetBases(name, a, b)\<close> with \<open>a < b\<close> and \<open>b - a\<close> within the cache size succeed by a
  fetch (a miss). Then the cached window runs from \<open>a\<close> to \<open>min (a + C) n\<close>, and every
  valid \<open>GetBases(name, a', b')\<close> with \<open>a \<le> a'\<close> and \<open>b' \<le> min (a + C) n\<close> makes no
  invocation of the store and leaves the reader as it is, so the same holds for the
  next such call: it returns the empty string when \<open>a' = b'\<close> and otherwise
  \<^verbatim>\<open>substr\<close> of the cached string at offset \<open>a' - a\<close>, which is a result whenever the
  cached string has at least \<open>a' - a\<close> characters.
\<close>

theorem containment_after_miss:
  assumes "faidx r = Some fai"
    and "0 < cache_size_bases r"
    and "GetBases r (MakeRange chr a b) = Done (Inr bases, r1, calls)" and "calls \<noteq> []"
    and "a < b" and "b - a \<le> cache_size_bases r"
    and "Contig r chr = Inr c"
    and "IsValidInterval r1 (MakeRange chr a' b')"
    and "a \<le> a'" and "b' \<le> min (a + cache_size_bases r) (n_bases c)"
  shows "cached_range r1 = Some (MakeRange chr a (min (a + cache_size_bases r) (n_bases c))) \<and>
         GetBases r1 (MakeRange chr a' b')
           = (if a' = b' then Done (Inr [], r1, [])
              else (case substr (small_read_cache r1) (a' - a) (b' - a') of
                      Crash \<Rightarrow> Crash
                    | Done result \<Rightarrow> Done (Inr result, r1, []))) \<and>
         (a' - a \<le> int (length (small_read_cache r1)) \<longrightarrow>
            (\<exists>result. GetBases r1 (MakeRange chr a' b') = Done (Inr result, r1, [])))"
proof -
  let ?rng = "MakeRange chr a b"
  let ?rng' = "MakeRange chr a' b'"
  let ?w = "MakeRange chr a (min (a + cache_size_bases r) (n_bases c))"
  let ?w0 = "MakeRange (reference_name ?rng) (start ?rng)
               (min (start ?rng + cache_size_bases r) (n_bases c))"
  have v: "IsValidInterval r ?rng"
    using GetBases_Inr_valid [OF assms(1,3)] .
  have ne: "start ?rng \<noteq> end' ?rng"
    using assms(5) by (simp add: MakeRange_def)
  have uc: "0 < cache_size_bases r" "end' ?rng - start ?rng \<le> cache_size_bases r"
    using assms(2,6) by (simp_all add: MakeRange_def)
  have c: "Contig r (reference_name ?rng) = Inr c"
    using assms(7) by (simp add: MakeRange_def)
  have m: "\<forall>cr. cached_range r = Some cr \<longrightarrow> \<not> RangeContains cr ?rng"
  proof (intro allI impI notI)
    fix cr
    assume "cached_range r = Some cr" and "RangeContains cr ?rng"
    then have "\<exists>x. GetBases r ?rng = Crash \<or> GetBases r ?rng = Done (x, r, [])"
      using assms(1) v ne uc
      by (cases "substr (small_read_cache r) (start ?rng - start cr) (end' ?rng - start ?rng)")
         (simp_all add: GetBases_def)
    then show False
      using assms(3,4) by auto
  qed
  obtain fetched len where
    f: "faidx_fetch_seq fai (reference_name ?rng) (start ?rng) (end' ?w0 - 1) = (fetched, len)"
    by (cases "faidx_fetch_seq fai (reference_name ?rng) (start ?rng) (end' ?w0 - 1)")
  have eq: "GetBases r ?rng =
     (if len \<le> 0
      then Done (Inl InvalidArgument, r, [(reference_name ?rng, start ?rng, end' ?w0 - 1)])
      else Done (Inr (take (nat (end' ?rng - start ?rng)) (AsciiStrToUpper fetched)),
                 r\<lparr>small_read_cache := AsciiStrToUpper fetched, cached_range := Some ?w0\<rparr>,
                 [(reference_name ?rng, start ?rng, end' ?w0 - 1)]))"
    using GetBases_miss_eq [OF assms(1) v ne uc m c refl f] .
  have r1: "r1 = r\<lparr>small_read_cache := AsciiStrToUpper fetched, cached_range := Some ?w\<rparr>"
    using eq assms(3) by (simp add: MakeRange_def split: if_splits)
  have cr1: "cached_range r1 = Some ?w" and o1: "faidx r1 = Some fai"
    and k1: "cache_size_bases r1 = cache_size_bases r"
    using r1 assms(1) by simp_all
  have le: "a' \<le> b'"
    using assms(8) by (auto simp: IsValidInterval_def MakeRange_def split: sum.splits)
  have h: "RangeContains ?w ?rng'"
    using assms(9,10) by (simp add: RangeContains_def MakeRange_def)
  have fit: "b' - a' \<le> cache_size_bases r"
    using assms(9,10) by simp
  have g: "GetBases r1 ?rng'
             = (if a' = b' then Done (Inr [], r1, [])
                else (case substr (small_read_cache r1) (a' - a) (b' - a') of
                        Crash \<Rightarrow> Crash
                      | Done result \<Rightarrow> Done (Inr result, r1, [])))"
    using o1 assms(8) cr1 k1 h fit assms(2)
    by (simp add: GetBases_def MakeRange_def)
  have "\<exists>result. GetBases r1 ?rng' = Done (Inr result, r1, [])"
    if "a' - a \<le> int (length (small_read_cache r1))"
    using that g assms(9) le by (simp add: substr_def)
  then show ?thesis
    using cr1 g by (simp add: MakeRange_def)
qed

theorem containment_after_miss_witness:
  "faidx (example_reader example_fai 10) = Some example_fai \<and>
   0 < cache_size_bases (example_reader example_fai 10) \<and>
   GetBases (example_reader example_fai 10) (MakeRange ''chr1'' 0 5)
     = Done (Inr ''ACGTN'', warm_reader example_fai 10, [(''chr1'', 0, 9)]) \<and>
   IsValidInterval (warm_reader example_fai 10) (MakeRange ''chr1'' 2 10) \<and>
   (0 :: int) \<le> 2 \<and>
   (10 :: int) \<le> min (0 + cache_size_bases (example_reader example_fai 10)) 20 \<and>
   (2 :: int) - 0 \<le> int (length (small_read_cache (warm_reader example_fai 10))) \<and>
   cached_range (warm_reader example_fai 10) = Some (MakeRange ''chr1'' 0 10) \<and>
   GetBases (warm_reader example_fai 10) (MakeRange ''chr1'' 2 10)
     = Done (Inr ''GTNACGTN'', warm_reader example_fai 10, [])"
proof -
  let ?r = "example_reader example_fai 10"
  let ?r1 = "warm_reader example_fai 10"
  let ?c = "\<lparr>name = ''chr1'', description = [], n_bases = 20, pos_in_fasta = 0\<rparr>"
  have o: "faidx ?r = Some example_fai"
    by (simp add: example_defs)
  have k: "0 < cache_size_bases ?r" "cache_size_bases ?r = 10"
    by (simp_all add: example_defs)
  have g: "GetBases ?r (MakeRange ''chr1'' 0 5)
             = Done (Inr ''ACGTN'', ?r1, [(''chr1'', 0, 9)])"
    by (simp add: model_defs example_defs)
  have c: "Contig ?r ''chr1'' = Inr ?c"
    by (simp add: Contig_def example_defs)
  have v: "IsValidInterval ?r1 (MakeRange ''chr1'' 2 10)"
    by (simp add: IsValid_example)
  have s: "small_read_cache ?r1 = ''ACGTNACGTN''"
    by (simp add: example_defs)
  have u: "substr ''ACGTNACGTN'' (2 - 0) (10 - 2) = Done ''GTNACGTN''"
    by (simp add: substr_def)
  show ?thesis
    using containment_after_miss [OF o k(1) g _ _ _ c v] o k g v s u
    by simp
qed

text \<open>
  C3. On an open reader, for a valid range that is not empty, fits the cache size and
  is not contained in a cached range, the one fetch is of the window that starts at
  the start of the range and ends at the smaller of start plus cache size and the
  contig's length. When the fetch returns a positive length, that window and the
  upper-cased bases replace the cached range and string, whatever they were, and the
  result is the first \<open>end - start\<close> characters of the new cached string.
\<close>

theorem GetBases_cached_miss:
  assumes "faidx r = Some fai" and "IsValidInterval r rng" and "start rng \<noteq> end' rng"
    and "0 < cache_size_bases r" and "end' rng - start rng \<le> cache_size_bases r"
    and "\<forall>cr. cached_range r = Some cr \<longrightarrow> \<not> RangeContains cr rng"
    and "Contig r (reference_name rng) = Inr c"
    and "w = MakeRange (reference_name rng) (start rng)
               (min (start rng + cache_size_bases r) (n_bases c))"
    and "faidx_fetch_seq fai (reference_name rng) (start rng) (end' w - 1) = (bases, len)"
  shows "GetBases r rng =
     (if len \<le> 0
      then Done (Inl InvalidArgument, r, [(reference_name rng, start rng, end' w - 1)])
      else Done (Inr (take (nat (end' rng - start rng)) (AsciiStrToUpper bases)),
                 r\<lparr>small_read_cache := AsciiStrToUpper bases, cached_range := Some w\<rparr>,
                 [(reference_name rng, start rng, end' w - 1)]))"
  using assms by (rule GetBases_miss_eq)

theorem GetBases_cached_miss_witness:
  "faidx (warm_reader example_fai 10) = Some example_fai \<and>
   IsValidInterval (warm_reader example_fai 10) (MakeRange ''chr2'' 5 7) \<and>
   cached_range (warm_reader example_fai 10) = Some (MakeRange ''chr1'' 0 10) \<and>
   \<not> RangeContains (MakeRange ''chr1'' 0 10) (MakeRange ''chr2'' 5 7) \<and>
   faidx_fetch_seq example_fai ''chr2'' 5 7 = (''aGG'', 3) \<and>
   GetBases (warm_reader example_fai 10) (MakeRange ''chr2'' 5 7)
     = Done (Inr ''AG'',
             (warm_reader example_fai 10)
               \<lparr>small_read_cache := ''AGG'', cached_range := Some (MakeRange ''chr2'' 5 8)\<rparr>,
             [(''chr2'', 5, 7)])"
proof -
  let ?r = "warm_reader example_fai 10"
  let ?rng = "MakeRange ''chr2'' 5 7"
  let ?c = "\<lparr>name = ''chr2'', description = [], n_bases = 8, pos_in_fasta = 1\<rparr>"
  have c: "Contig ?r (reference_name ?rng) = Inr ?c"
    by (simp add: Contig_def example_defs)
  have w: "MakeRange ''chr2'' 5 8
             = MakeRange (reference_name ?rng) (start ?rng)
                 (min (start ?rng + cache_size_bases ?r) (n_bases ?c))"
    by (simp add: example_defs)
  have f: "faidx_fetch_seq example_fai (reference_name ?rng) (start ?rng) (end' (MakeRange ''chr2'' 5 8) - 1)
             = (''aGG'', 3)"
    by (simp add: example_defs)
  have u: "AsciiStrToUpper ''aGG'' = ''AGG''"
    by (simp add: AsciiStrToUpper_def toupper_simps)
  have h: "\<forall>cr. cached_range ?r = Some cr \<longrightarrow> \<not> RangeContains cr ?rng"
    by (simp add: RangeContains_def example_defs)
  show ?thesis
    using GetBases_cached_miss [of ?r example_fai ?rng ?c "MakeRange ''chr2'' 5 8" "''aGG''" 3,
        OF _ _ _ _ _ h c w f] u
    by (simp add: IsValid_example) (simp add: RangeContains_def example_defs)
qed

text \<open>
  C4, as stated, fails when a fetch can fail: whether a fetch is made, and of which
  window, depends on the cache. Over the store that fails from position 15 on, with
  cache size 10, the fresh reader and the reader after \<open>GetBases(chr1, 0, 5)\<close> are two
  reachable cache states. The valid request from 6 to 9 is a hit in the second and
  returns its three bases; in the first it is a miss whose window from 6 to 16 cannot
  be fetched, and the result is InvalidArgument.
\<close>

theorem idempotence_failed_prefetch_counterexample:
  "GetBases (example_reader short_fai 10) (MakeRange ''chr1'' 0 5)
     = Done (Inr ''ACGTN'', warm_reader short_fai 10, [(''chr1'', 0, 9)]) \<and>
   IsValidInterval (example_reader short_fai 10) (MakeRange ''chr1'' 6 9) \<and>
   GetBases (warm_reader short_fai 10) (MakeRange ''chr1'' 6 9)
     = Done (Inr ''CGT'', warm_reader short_fai 10, []) \<and>
   GetBases (example_reader short_fai 10) (MakeRange ''chr1'' 6 9)
     = Done (Inl InvalidArgument, example_reader short_fai 10, [(''chr1'', 6, 15)])"
  by (simp add: model_defs example_defs)

text \<open>
  C4, amended. On an open reader and for a valid range, whatever the store: when
  \<open>GetBases\<close> returns, the same call made again right away returns the same result,
  string or error. Over a store that serves the catalog's contigs, the range gets the
  same string from the reader in any two cache states that satisfy the invariant.
\<close>

theorem GetBases_idempotent:
  assumes "faidx r = Some fai" and "IsValidInterval r rng"
  shows "(\<forall>res r1 calls.
            GetBases r rng = Done (res, r1, calls) \<longrightarrow>
            (\<exists>calls2. GetBases r1 rng = Done (res, r1, calls2))) \<and>
         (serves g (contigs r) fai \<and> cache_inv g r \<and>
          cache_inv g (r\<lparr>small_read_cache := b, cached_range := w\<rparr>) \<longrightarrow>
          (\<exists>bases r1 calls1 r3 calls3.
             GetBases r rng = Done (Inr bases, r1, calls1) \<and>
             GetBases (r\<lparr>small_read_cache := b, cached_range := w\<rparr>) rng
               = Done (Inr bases, r3, calls3)))"
proof (intro conjI allI impI)
  fix res r1 calls
  assume "GetBases r rng = Done (res, r1, calls)"
  then show "\<exists>calls2. GetBases r1 rng = Done (res, r1, calls2)"
    by (rule GetBases_twice)
next
  let ?out = "AsciiStrToUpper (region (g (reference_name rng)) (start rng) (end' rng))"
  let ?r' = "r\<lparr>small_read_cache := b, cached_range := w\<rparr>"
  assume h: "serves g (contigs r) fai \<and> cache_inv g r \<and> cache_inv g ?r'"
  obtain r1 calls1 where g1: "GetBases r rng = Done (Inr ?out, r1, calls1)"
    using GetBases_served [OF assms(1) _ _ assms(2), of g] h by blast
  obtain r3 calls3 where g3: "GetBases ?r' rng = Done (Inr ?out, r3, calls3)"
    using GetBases_served [of ?r' fai g rng] assms h by auto
  show "\<exists>bases r1 calls1 r3 calls3.
          GetBases r rng = Done (Inr bases, r1, calls1) \<and>
          GetBases ?r' rng = Done (Inr bases, r3, calls3)"
    using g1 g3 by blast
qed

theorem GetBases_idempotent_witness:
  "faidx (example_reader example_fai 10) = Some example_fai \<and>
   serves example_bases (contigs (example_reader example_fai 10)) example_fai \<and>
   IsValidInterval (example_reader example_fai 10) (MakeRange ''chr1'' 2 7) \<and>
   cache_inv example_bases (example_reader example_fai 10) \<and>
   cache_inv example_bases (warm_reader example_fai 10) \<and>
   cache_inv example_bases
     ((example_reader example_fai 10)
        \<lparr>small_read_cache := ''TTGACAGG'', cached_range := Some (MakeRange ''chr2'' 0 8)\<rparr>) \<and>
   GetBases (example_reader example_fai 10) (MakeRange ''chr1'' 2 7)
     = Done (Inr ''GTNAC'',
             (example_reader example_fai 10)
               \<lparr>small_read_cache := ''GTNACGTNAC'', cached_range := Some (MakeRange ''chr1'' 2 12)\<rparr>,
             [(''chr1'', 2, 11)]) \<and>
   (\<exists>calls2.
      GetBases
        ((example_reader example_fai 10)
           \<lparr>small_read_cache := ''GTNACGTNAC'', cached_range := Some (MakeRange ''chr1'' 2 12)\<rparr>)
        (MakeRange ''chr1'' 2 7)
        = Done (Inr ''GTNAC'',
                (example_reader example_fai 10)
                  \<lparr>small_read_cache := ''GTNACGTNAC'',
                     cached_range := Some (MakeRange ''chr1'' 2 12)\<rparr>,
                calls2)) \<and>
   (\<exists>r3 calls3.
      GetBases (warm_reader example_fai 10) (MakeRange ''chr1'' 2 7)
        = Done (Inr ''GTNAC'', r3, calls3)) \<and>
   (\<exists>r3 calls3.
      GetBases
        ((example_reader example_fai 10)
           \<lparr>small_read_cache := ''TTGACAGG'', cached_range := Some (MakeRange ''chr2'' 0 8)\<rparr>)
        (MakeRange ''chr1'' 2 7)
        = Done (Inr ''GTNAC'', r3, calls3))"
proof -
  let ?r = "example_reader example_fai 10"
  let ?rng = "MakeRange ''chr1'' 2 7"
  let ?r1 = "?r\<lparr>small_read_cache := ''GTNACGTNAC'', cached_range := Some (MakeRange ''chr1'' 2 12)\<rparr>"
  let ?other = "?r\<lparr>small_read_cache := ''TTGACAGG'', cached_range := Some (MakeRange ''chr2'' 0 8)\<rparr>"
  have o: "faidx ?r = Some example_fai"
    by (simp add: example_defs)
  have s: "serves example_bases (contigs ?r) example_fai"
    using serves_example by (simp add: example_defs)
  have v: "IsValidInterval ?r ?rng"
    by (simp add: IsValid_example)
  have w: "?r\<lparr>small_read_cache := ''ACGTNACGTN'', cached_range := Some (MakeRange ''chr1'' 0 10)\<rparr>
             = warm_reader example_fai 10"
    by (simp add: warm_reader_def)
  have i: "cache_inv example_bases ?other"
    by (simp add: cache_inv_def IsValid_example)
       (simp add: region_def AsciiStrToUpper_def toupper_simps example_defs)
  have g: "GetBases ?r ?rng = Done (Inr ''GTNAC'', ?r1, [(''chr1'', 2, 11)])"
    by (simp add: model_defs example_defs)
  have twice: "\<exists>calls2. GetBases ?r1 ?rng = Done (Inr ''GTNAC'', ?r1, calls2)"
    using GetBases_idempotent [OF o v, where g = example_bases and b = "[]" and w = None] g
    by simp
  have warm: "\<exists>r3 calls3. GetBases (warm_reader example_fai 10) ?rng = Done (Inr ''GTNAC'', r3, calls3)"
    using GetBases_idempotent [OF o v, where g = example_bases and b = "''ACGTNACGTN''"
        and w = "Some (MakeRange ''chr1'' 0 10)"]
      s g cache_inv_example [of example_fai 10]
    unfolding w by simp
  have other: "\<exists>r3 calls3. GetBases ?other ?rng = Done (Inr ''GTNAC'', r3, calls3)"
    using GetBases_idempotent [OF o v, where g = example_bases and b = "''TTGACAGG''"
        and w = "Some (MakeRange ''chr2'' 0 8)"]
      s g i cache_inv_example(1) [of example_fai 10]
    by simp
  show ?thesis
    using o s v g i twice warm other cache_inv_example [of example_fai 10] by simp
qed

text \<open>
  C5. On an open reader, a valid range with \<open>start = end\<close> gets the empty string, with
  no invocation of the store and with the reader, so its cache slot, as it was.
\<close>

theorem GetBases_empty_range:
  assumes "faidx r = Some fai" and "IsValidInterval r rng" and "start rng = end' rng"
  shows "GetBases r rng = Done (Inr [], r, [])"
  using assms by (simp add: GetBases_def)

theorem GetBases_empty_range_witness:
  "faidx (warm_reader example_fai 10) = Some example_fai \<and>
   IsValidInterval (warm_reader example_fai 10) (MakeRange ''chr2'' 3 3) \<and>
   start (MakeRange ''chr2'' 3 3) = end' (MakeRange ''chr2'' 3 3) \<and>
   GetBases (warm_reader example_fai 10) (MakeRange ''chr2'' 3 3)
     = Done (Inr [], warm_reader example_fai 10, [])"
  using GetBases_empty_range [of "warm_reader example_fai 10" example_fai "MakeRange ''chr2'' 3 3"]
  by (simp add: model_defs example_defs)

text \<open>
  C6. When a fetch that \<open>GetBases\<close> made returned a length that is not positive,
  the result is InvalidArgument and the reader is the one before the call: neither the
  cached range nor the cached string has changed.
\<close>

theorem GetBases_failed_fetch:
  assumes "faidx r = Some fai"
    and "GetBases r rng = Done (res, r', calls)"
    and "(chr, s, e) \<in> set calls" and "snd (faidx_fetch_seq fai chr s e) \<le> 0"
  shows "res = Inl InvalidArgument \<and> r' = r \<and>
         small_read_cache r' = small_read_cache r \<and> cached_range r' = cached_range r"
  using GetBases_failure_keeps_reader [OF assms] by simp

theorem GetBases_failed_fetch_witness:
  "faidx (warm_reader truncated_fai 10) = Some truncated_fai \<and>
   GetBases (warm_reader truncated_fai 10) (MakeRange ''chr2'' 0 4)
     = Done (Inl InvalidArgument, warm_reader truncated_fai 10, [(''chr2'', 0, 7)]) \<and>
   snd (faidx_fetch_seq truncated_fai ''chr2'' 0 7) \<le> 0 \<and>
   cached_range (warm_reader truncated_fai 10) = Some (MakeRange ''chr1'' 0 10)"
proof -
  let ?r = "warm_reader truncated_fai 10"
  obtain res r' where g:
    "GetBases ?r (MakeRange ''chr2'' 0 4) = Done (res, r', [(''chr2'', 0, 7)])"
    by (simp add: model_defs example_defs)
  have f: "snd (faidx_fetch_seq truncated_fai ''chr2'' 0 7) \<le> 0"
    by (simp add: truncated_fai_def)
  have o: "faidx ?r = Some truncated_fai"
    by (simp add: example_defs)
  have "res = Inl InvalidArgument \<and> r' = ?r"
    using GetBases_failed_fetch [OF o g _ f] by simp
  with g f o show ?thesis by (simp add: example_defs)
qed

text \<open>
  C7. \<open>Close\<close> on an open reader succeeds and leaves a closed reader. On that reader
  every \<open>GetBases\<close>, whatever the range, and every further \<open>Close\<close> returns
  FailedPrecondition and returns the reader as it is: still closed, so the same holds
  for every later call.
\<close>

theorem Close_is_final:
  assumes "faidx r = Some fai"
  shows "fst (Close r) = None \<and>
         faidx (snd (Close r)) = None \<and>
         GetBases (snd (Close r)) rng = Done (Inl FailedPrecondition, snd (Close r), []) \<and>
         Close (snd (Close r)) = (Some FailedPrecondition, snd (Close r))"
  using assms by (simp add: Close_def GetBases_def)

theorem Close_is_final_witness:
  "faidx (warm_reader example_fai 10) = Some example_fai \<and>
   fst (Close (warm_reader example_fai 10)) = None \<and>
   GetBases (snd (Close (warm_reader example_fai 10))) (MakeRange ''chr1'' 2 7)
     = Done (Inl FailedPrecondition, snd (Close (warm_reader example_fai 10)), []) \<and>
   Close (snd (Close (warm_reader example_fai 10)))
     = (Some FailedPrecondition, snd (Close (warm_reader example_fai 10)))"
  using Close_is_final [of "warm_reader example_fai 10" example_fai "MakeRange ''chr1'' 2 7"]
  by (simp add: example_defs)

text \<open>
  C8. On an open reader, for a valid range that is not empty and for which
  \<open>use_cache\<close> is false (the cache size is not positive, or the range is longer than
  the cache size), \<open>GetBases\<close> makes one fetch, of exactly the requested range (the
  end made inclusive), returns the upper-cased bases as they are (InvalidArgument when
  the fetch returned no positive length), and leaves the reader, so the cached range
  and the cached string, as it was.
\<close>

theorem GetBases_uncached:
  assumes "faidx r = Some fai" and "IsValidInterval r rng" and "start rng \<noteq> end' rng"
    and "\<not> (cache_size_bases r > 0 \<and> end' rng - start rng \<le> cache_size_bases r)"
    and "faidx_fetch_seq fai (reference_name rng) (start rng) (end' rng - 1) = (bases, len)"
  shows "GetBases r rng =
           Done (if len \<le> 0 then Inl InvalidArgument else Inr (AsciiStrToUpper bases),
                 r, [(reference_name rng, start rng, end' rng - 1)])"
  using assms by (rule GetBases_direct_eq)

theorem GetBases_uncached_witness:
  "faidx (warm_reader example_fai 10) = Some example_fai \<and>
   IsValidInterval (warm_reader example_fai 10) (MakeRange ''chr1'' 3 16) \<and>
   \<not> (cache_size_bases (warm_reader example_fai 10) > 0 \<and>
      16 - 3 \<le> cache_size_bases (warm_reader example_fai 10)) \<and>
   faidx_fetch_seq example_fai ''chr1'' 3 15 = (''tnACGTNacgtnA'', 13) \<and>
   GetBases (warm_reader example_fai 10) (MakeRange ''chr1'' 3 16)
     = Done (Inr ''TNACGTNACGTNA'', warm_reader example_fai 10, [(''chr1'', 3, 15)])"
proof -
  let ?rng = "MakeRange ''chr1'' 3 16"
  have f: "faidx_fetch_seq example_fai (reference_name ?rng) (start ?rng) (end' ?rng - 1)
             = (''tnACGTNacgtnA'', 13)"
    by (simp add: example_defs)
  have u: "AsciiStrToUpper ''tnACGTNacgtnA'' = ''TNACGTNACGTNA''"
    by (simp add: AsciiStrToUpper_def toupper_simps)
  show ?thesis
    using GetBases_uncached [of "warm_reader example_fai 10" example_fai ?rng
        "''tnACGTNacgtnA''" 13, OF _ _ _ _ f] u
    by (simp add: IsValid_example) (simp add: example_defs)
qed

text \<open>
  C9. On an open reader whose cache slot satisfies the invariant, over a store that
  serves the catalog's contigs, the loop over \<open>Next\<close> from position 0 returns one
  record per catalog entry, in catalog order, so as many records as the catalog has
  entries (none for an empty catalog). The records are those of one
  \<open>GetBases(name, 0, length)\<close> per entry, each through the cache the previous one
  left, and the \<open>Next\<close> after the last record returns \<^verbatim>\<open>false\<close>.
\<close>

theorem Iterate_yields_catalog:
  assumes "faidx r = Some fai" and "serves g (contigs r) fai" and "cache_inv g r"
  shows "\<exists>it recs r' calls.
           Iterate r = Inr it \<and>
           drain None it r = Done (Inr recs, r', calls) \<and>
           read_contigs r (contigs r) = Done (recs, r', calls) \<and>
           map fst recs = map name (contigs r) \<and>
           length recs = length (contigs r) \<and>
           Next None \<lparr>pos = length (contigs r)\<rparr> r'
             = Done (Inr None, \<lparr>pos = length (contigs r)\<rparr>, r', [])"
proof -
  obtain r' calls where
    rc: "read_contigs r (contigs r)
           = Done (map (\<lambda>c. (name c, AsciiStrToUpper (g (name c)))) (contigs r), r', calls)"
    and fr: "contigs r' = contigs r"
    using read_contigs_served [OF assms, of "contigs r"] by auto
  have "drain None \<lparr>pos = 0\<rparr> r
          = Done (Inr (map (\<lambda>c. (name c, AsciiStrToUpper (g (name c)))) (contigs r)), r', calls)"
    using rc by (simp add: drain_read_contigs)
  moreover have "Next None \<lparr>pos = length (contigs r)\<rparr> r'
                   = Done (Inr None, \<lparr>pos = length (contigs r)\<rparr>, r', [])"
    using fr by (simp add: Next_def)
  ultimately show ?thesis
    using rc by (simp add: Iterate_def comp_def)
qed

theorem Iterate_yields_catalog_witness:
  "serves example_bases (contigs (example_reader example_fai 10)) example_fai \<and>
   cache_inv example_bases (example_reader example_fai 10) \<and>
   (\<exists>it recs r' calls.
      Iterate (example_reader example_fai 10) = Inr it \<and>
      drain None it (example_reader example_fai 10) = Done (Inr recs, r', calls) \<and>
      read_contigs (example_reader example_fai 10) (contigs (example_reader example_fai 10))
        = Done (recs, r', calls) \<and>
      map fst recs = [''chr1'', ''chr2''] \<and> length recs = 2)"
proof -
  let ?r = "example_reader example_fai 10"
  have o: "faidx ?r = Some example_fai"
    by (simp add: example_defs)
  have s: "serves example_bases (contigs ?r) example_fai"
    using serves_example by (simp add: example_defs)
  have c: "map name (contigs ?r) = [''chr1'', ''chr2'']" "length (contigs ?r) = 2"
    by (simp_all add: example_defs)
  show ?thesis
    using Iterate_yields_catalog [OF o s cache_inv_example(1)] s
      cache_inv_example(1) [of example_fai 10]
    unfolding c by auto
qed

text \<open>
  C10. An error of \<open>GetBases\<close> inside \<open>Next\<close> does not reach the caller as a typed
  result: \<^verbatim>\<open>ValueOrDie()\<close> ends the process. On a reader whose store fails,
  \<open>GetBases\<close> for the first contig returns InvalidArgument and \<open>Next\<close> crashes; on a
  closed reader \<open>GetBases\<close> returns FailedPrecondition and \<open>Next\<close> crashes.
\<close>

theorem Next_dies_on_GetBases_error:
  "GetBases (example_reader failing_fai 10) (MakeRange ''chr1'' 0 20)
     = Done (Inl InvalidArgument, example_reader failing_fai 10, [(''chr1'', 0, 19)]) \<and>
   Next None \<lparr>pos = 0\<rparr> (example_reader failing_fai 10) = Crash \<and>
   GetBases (snd (Close (example_reader example_fai 10))) (MakeRange ''chr1'' 0 20)
     = Done (Inl FailedPrecondition, snd (Close (example_reader example_fai 10)), []) \<and>
   Next None \<lparr>pos = 0\<rparr> (snd (Close (example_reader example_fai 10))) = Crash"
  by (simp add: Next_def Close_def model_defs example_defs)

end
